theory Spec2Isabelle
  imports Main "HOL-Library.Multiset" "HOL-Library.AList"
begin

section \<open>Data model of package utils\<close>

text \<open>
  \<^verbatim>\<open>GceInstance\<close> (utils/gcp.go). The field \<^verbatim>\<open>AliasIps\<close> is a pointer to a slice in the
  source; no function of the planner or of \<^verbatim>\<open>Execute\<close> writes through it, so it is the list
  of addresses itself here.
\<close>

record GceInstance =
  Name :: string
  NetworkInterface :: string
  NetworkFingerprint :: string
  AliasNetwork :: string
  AliasIps :: "string list"

text \<open>
  \<^verbatim>\<open>type Type int\<close> with the constants \<^verbatim>\<open>Add\<close> and \<^verbatim>\<open>Remove\<close>. Any other integer
  is a value of the Go type as well (\<^verbatim>\<open>String()\<close> prints it as "Unknown"); it is the third
  constructor.
\<close>

datatype Type = Add | Remove | Unknown

record Operation =
  Type :: Type
  Instance :: GceInstance
  Ips :: "string list"

text \<open>
  Errors of the external calls, and the one run-time panic the planner could raise
  (a slice expression out of range).
\<close>

datatype error = ApiError | Conflict | SliceBounds

text \<open>
  A Go map is an association list with distinct keys. The order of the list carries no
  meaning: every \<^verbatim>\<open>range\<close> over a map visits the entries in an order of its own, which
  is any permutation of the list (see the relations of the planner below).
\<close>

type_synonym instances = "(string \<times> GceInstance) list"
type_synonym operations = "(string \<times> Operation) list"
type_synonym target = "(string \<times> int) list"

section \<open>Execution engine (package utils, Operation)\<close>

text \<open>
  The external service as \<^verbatim>\<open>Execute\<close> sees it: the answer of \<^verbatim>\<open>GetInstance\<close> to a name and
  the answer of \<^verbatim>\<open>UpdateAliasIPs\<close> to an instance and an address list (\<open>None\<close> is the nil
  error). Each is called at most once by one \<^verbatim>\<open>Execute\<close>.
\<close>

record Env =
  GetInstance :: "string \<Rightarrow> error + GceInstance"
  UpdateAliasIPs :: "GceInstance \<Rightarrow> string list \<Rightarrow> error option"

text \<open>
  The external calls one \<^verbatim>\<open>Execute\<close> issues, in order. \<^verbatim>\<open>UpdateAliasIPs\<close> is the only
  call that writes to the external service; \<^verbatim>\<open>WaitForUpdate\<close> polls it against the clock
  and returns nothing, so it is recorded as a call and not unfolded.
\<close>

datatype call =
    GetInstanceCall string
  | UpdateAliasIPsCall GceInstance "string list"
  | WaitForUpdateCall string "string list"

text \<open>The \<^verbatim>\<open>switch operation.Type\<close> of \<^verbatim>\<open>Execute\<close>: the state to write.\<close>

definition newState :: "Type \<Rightarrow> string list \<Rightarrow> string list \<Rightarrow> string list" where
  "newState ty current ips =
     (case ty of
        Add \<Rightarrow> fold (\<lambda>ip ns. if ip \<in> set ns then ns else ns @ [ip]) ips current
      | Remove \<Rightarrow> filter (\<lambda>ip. ip \<notin> set ips) current
      | Unknown \<Rightarrow> [])"

definition Execute :: "Env \<Rightarrow> Operation \<Rightarrow> int \<times> call list" where
  "Execute env operation =
     (let name = Name (Instance operation) in
      case GetInstance env name of
        Inl err \<Rightarrow> (0, [GetInstanceCall name])
      | Inr inst \<Rightarrow>
          (let ns = newState (Type operation) (AliasIps inst) (Ips operation) in
           if length (AliasIps inst) = length ns then (0, [GetInstanceCall name])
           else
             (case UpdateAliasIPs env inst ns of
                Some err \<Rightarrow> (0, [GetInstanceCall name, UpdateAliasIPsCall inst ns])
              | None \<Rightarrow>
                  (1, [GetInstanceCall name, UpdateAliasIPsCall inst ns,
                       WaitForUpdateCall (Name inst) ns]))))"

text \<open>
  \<^verbatim>\<open>ExecuteParallel\<close>: the operations sent to the workers are those with a non-empty
  address list; the result is the sum of what \<^verbatim>\<open>Execute\<close> returns for each of them. The
  workers run concurrently, so each operation meets the external service in a state of its
  own: \<open>envs name\<close> is what the worker of the operation under key \<open>name\<close> sees.
\<close>

definition submitted :: "operations \<Rightarrow> operations" where
  "submitted ops = filter (\<lambda>(name, operation). length (Ips operation) > 0) ops"

definition ExecuteParallel :: "(string \<Rightarrow> Env) \<Rightarrow> operations \<Rightarrow> int" where
  "ExecuteParallel envs ops =
     sum_list (map (\<lambda>(name, operation). fst (Execute (envs name) operation)) (submitted ops))"

section \<open>Allocation planner (vip_manager.go)\<close>

text \<open>
  Every function below that ranges over a map takes the sequence in which the entries are
  visited as an argument (\<open>order\<close>); the relations give it every permutation of the map.
\<close>

subsection \<open>Spare addresses\<close>

text \<open>\<^verbatim>\<open>GetSpareIps\<close>, first loop: every configured address is entered as not in use.\<close>

definition initUsed :: "string list \<Rightarrow> (string \<times> bool) list" where
  "initUsed vips = fold (\<lambda>ip used. AList.update ip False used) vips []"

text \<open>Second loop: an address of an instance that is a key of \<^verbatim>\<open>used\<close> is marked.\<close>

definition markUsed :: "instances \<Rightarrow> (string \<times> bool) list \<Rightarrow> (string \<times> bool) list" where
  "markUsed order used =
     fold (\<lambda>(name, inst) u.
             fold (\<lambda>ip u'. if map_of u' ip \<noteq> None then AList.update ip True u' else u')
               (AliasIps inst) u)
       order used"

text \<open>Third loop: the keys not in use, in the order the map is visited.\<close>

definition collectSpare :: "(string \<times> bool) list \<Rightarrow> string list" where
  "collectSpare order = map fst (filter (\<lambda>(ip, inuse). \<not> inuse) order)"

inductive GetSpareIps :: "string list \<Rightarrow> instances \<Rightarrow> string list \<Rightarrow> bool" where
  spare:
    "mset o1 = mset insts \<Longrightarrow> mset o2 = mset (markUsed o1 (initUsed vips))
     \<Longrightarrow> GetSpareIps vips insts (collectSpare o2)"

subsection \<open>Grow pass\<close>

text \<open>
  \<^verbatim>\<open>operations[name].Ips\<close>: a key that is absent reads as the zero \<^verbatim>\<open>Operation\<close>, whose
  address list is nil.
\<close>

definition opIps :: "operations \<Rightarrow> string \<Rightarrow> string list" where
  "opIps ops name = (case map_of ops name of None \<Rightarrow> [] | Some operation \<Rightarrow> Ips operation)"

text \<open>
  The number of addresses of an instance plus the number staged for it in
  \<^verbatim>\<open>operations[name].Ips\<close>, as \<^verbatim>\<open>minAliasIps\<close> and the inner loop of \<^verbatim>\<open>AllocateIps\<close> both
  compute it.
\<close>

definition load :: "operations \<Rightarrow> string \<times> GceInstance \<Rightarrow> int" where
  "load ops = (\<lambda>(name, inst). int (length (AliasIps inst)) + int (length (opIps ops name)))"

definition minAliasIps :: "instances \<Rightarrow> operations \<Rightarrow> int" where
  "minAliasIps order ops =
     fold (\<lambda>entry mn. let ips = load ops entry in if mn < 0 \<or> ips < mn then ips else mn)
       order (- 1)"

definition initOperations :: "instances \<Rightarrow> operations" where
  "initOperations insts =
     map (\<lambda>(name, inst). (name, \<lparr>Type = Add, Instance = inst, Ips = []\<rparr>)) insts"

text \<open>
  The inner loop of \<^verbatim>\<open>AllocateIps\<close>: the first instance visited whose load is \<open>mn\<close> gets
  the address appended to its operation, and the loop breaks.
\<close>

definition assignIp :: "int \<Rightarrow> instances \<Rightarrow> operations \<Rightarrow> string \<Rightarrow> operations" where
  "assignIp mn order ops ip =
     (case find (\<lambda>entry. load ops entry = mn) order of
        None \<Rightarrow> ops
      | Some (name, inst) \<Rightarrow>
          (case map_of ops name of
             Some operation \<Rightarrow>
               AList.update name (operation\<lparr>Ips := Ips operation @ [ip]\<rparr>) ops
           | None \<Rightarrow> ops))"

text \<open>
  One round of the outer loop, on the operations so far and the spare addresses still to
  assign.
\<close>

inductive assign_step ::
  "instances \<Rightarrow> operations \<times> string list \<Rightarrow> operations \<times> string list \<Rightarrow> bool"
  for insts where
  assign:
    "mset o1 = mset insts \<Longrightarrow> mset o2 = mset insts
     \<Longrightarrow> assign_step insts (ops, ip # rest) (assignIp (minAliasIps o1 ops) o2 ops ip, rest)"

text \<open>
  \<^verbatim>\<open>AllocateIps\<close> on the answer of \<^verbatim>\<open>GetInstancesFromMIG\<close>: the operations it hands to
  \<^verbatim>\<open>ExecuteParallel\<close> (none when it returns early) and the number it returns.
\<close>

inductive AllocateIps ::
  "(string \<Rightarrow> Env) \<Rightarrow> string list \<Rightarrow> error + instances \<Rightarrow> operations \<times> int \<Rightarrow> bool" where
  fetch_failed: "AllocateIps envs vips (Inl err) ([], 0)"
| nothing_to_do:
    "GetSpareIps vips insts spare \<Longrightarrow> length spare = 0 \<or> length insts = 0
     \<Longrightarrow> AllocateIps envs vips (Inr insts) ([], 0)"
| planned:
    "GetSpareIps vips insts spare \<Longrightarrow> \<not> (length spare = 0 \<or> length insts = 0)
     \<Longrightarrow> rtranclp (assign_step insts) (initOperations insts, spare) (ops, [])
     \<Longrightarrow> AllocateIps envs vips (Inr insts) (ops, ExecuteParallel envs ops)"

subsection \<open>Shrink pass\<close>

text \<open>\<^verbatim>\<open>target[name]\<close>: a key that is absent reads as 0.\<close>

definition lookupTarget :: "target \<Rightarrow> string \<Rightarrow> int" where
  "lookupTarget t name = (case map_of t name of None \<Rightarrow> 0 | Some v \<Rightarrow> v)"

definition minValue :: "target \<Rightarrow> int" where
  "minValue order = fold (\<lambda>(name, v) mn. if mn < 0 \<or> v < mn then v else mn) order (- 1)"

definition maxValue :: "target \<Rightarrow> int" where
  "maxValue order = fold (\<lambda>(name, v) mx. if mx < v then v else mx) order 0"

definition initTarget :: "instances \<Rightarrow> target" where
  "initTarget insts = map (\<lambda>(name, inst). (name, int (length (AliasIps inst)))) insts"

text \<open>The two inner loops of the Robin Hood loop: first match, update, break.\<close>

definition decrementMax :: "int \<Rightarrow> target \<Rightarrow> target \<Rightarrow> target" where
  "decrementMax mx order t =
     (case find (\<lambda>(name, v). v = mx) order of
        None \<Rightarrow> t
      | Some (name, v) \<Rightarrow> AList.update name (lookupTarget t name - 1) t)"

definition incrementMin :: "int \<Rightarrow> target \<Rightarrow> target \<Rightarrow> target" where
  "incrementMin mn order t =
     (case find (\<lambda>(name, v). v = mn) order of
        None \<Rightarrow> t
      | Some (name, v) \<Rightarrow> AList.update name (lookupTarget t name + 1) t)"

text \<open>
  One round of \<^verbatim>\<open>for max-min > 1\<close>, on the variables \<^verbatim>\<open>target\<close>, \<^verbatim>\<open>min\<close> and \<^verbatim>\<open>max\<close>.
\<close>

inductive robin_hood_step :: "target \<times> int \<times> int \<Rightarrow> target \<times> int \<times> int \<Rightarrow> bool" where
  round:
    "mx - mn > 1 \<Longrightarrow> mset o1 = mset t \<Longrightarrow> t1 = decrementMax mx o1 t
     \<Longrightarrow> mset o2 = mset t1 \<Longrightarrow> t2 = incrementMin mn o2 t1
     \<Longrightarrow> mset o3 = mset t2 \<Longrightarrow> mset o4 = mset t2
     \<Longrightarrow> robin_hood_step (t, mn, mx) (t2, minValue o3, maxValue o4)"

text \<open>The loop from its entry to its exit: the target map it leaves.\<close>

inductive RobinHood :: "target \<Rightarrow> target \<Rightarrow> bool" where
  exit:
    "mset o1 = mset t \<Longrightarrow> mset o2 = mset t
     \<Longrightarrow> rtranclp robin_hood_step (t, minValue o1, maxValue o2) (t', mn, mx)
     \<Longrightarrow> \<not> mx - mn > 1 \<Longrightarrow> RobinHood t t'"

text \<open>
  The last loop of \<^verbatim>\<open>ReduceIps\<close>. \<^verbatim>\<open>ips[:reduction]\<close> is in range when the reduction is at
  most the length of the list; beyond it the slice expression is outside the list, which
  is the error \<open>SliceBounds\<close> here.
\<close>

definition generateOperations :: "target \<Rightarrow> instances \<Rightarrow> error + operations" where
  "generateOperations t order =
     fold (\<lambda>(name, inst) acc.
             case acc of
               Inl e \<Rightarrow> Inl e
             | Inr ops \<Rightarrow>
                 (let reduction = int (length (AliasIps inst)) - lookupTarget t name in
                  if reduction > 0 then
                    (if nat reduction \<le> length (AliasIps inst) then
                       Inr (AList.update name
                              \<lparr>Type = Remove, Instance = inst,
                               Ips = take (nat reduction) (AliasIps inst)\<rparr> ops)
                     else Inl SliceBounds)
                  else Inr ops))
       order (Inr [])"

text \<open>
  \<^verbatim>\<open>ReduceIps\<close> on the answer of \<^verbatim>\<open>GetInstancesFromMIG\<close>: the operations it hands to
  \<^verbatim>\<open>ExecuteParallel\<close> (none when it returns early) and the number it returns, or the error
  it stops with.
\<close>

inductive ReduceIps ::
  "(string \<Rightarrow> Env) \<Rightarrow> error + instances \<Rightarrow> error + operations \<times> int \<Rightarrow> bool" where
  fetch_failed: "ReduceIps envs (Inl err) (Inr ([], 0))"
| no_instances: "length insts = 0 \<Longrightarrow> ReduceIps envs (Inr insts) (Inr ([], 0))"
| planned:
    "length insts \<noteq> 0 \<Longrightarrow> RobinHood (initTarget insts) t \<Longrightarrow> mset o1 = mset insts
     \<Longrightarrow> generateOperations t o1 = Inr ops
     \<Longrightarrow> ReduceIps envs (Inr insts) (Inr (ops, ExecuteParallel envs ops))"
| panicked:
    "length insts \<noteq> 0 \<Longrightarrow> RobinHood (initTarget insts) t \<Longrightarrow> mset o1 = mset insts
     \<Longrightarrow> generateOperations t o1 = Inl e
     \<Longrightarrow> ReduceIps envs (Inr insts) (Inl e)"

section \<open>Notions the properties are stated with\<close>

definition spread :: "target \<Rightarrow> int" where
  "spread t = Max (snd ` set t) - Min (snd ` set t)"

definition total :: "target \<Rightarrow> int" where
  "total t = sum_list (map snd t)"

definition sumsq :: "target \<Rightarrow> int" where
  "sumsq t = sum_list (map (\<lambda>v. v * v) (map snd t))"

text \<open>
  What a map of counts is: the keys are distinct and no count is negative (a count is the
  length of a list).
\<close>

definition counts :: "target \<Rightarrow> bool" where
  "counts t \<longleftrightarrow> distinct (map fst t) \<and> (\<forall>v \<in> snd ` set t. 0 \<le> v)"

text \<open>The addresses staged by a map of operations, over all its entries.\<close>

definition staged :: "operations \<Rightarrow> string list" where
  "staged ops = concat (map (\<lambda>(name, operation). Ips operation) ops)"

text \<open>
  The desired final address set in the words of the specification: the union of the current
  and the added addresses for \<^verbatim>\<open>Add\<close>, the current addresses minus the removed ones for
  \<^verbatim>\<open>Remove\<close>. For any other type the source leaves \<^verbatim>\<open>newState\<close> nil: no address.
\<close>

definition desired :: "Type \<Rightarrow> string list \<Rightarrow> string list \<Rightarrow> string set" where
  "desired ty current ips =
     (case ty of
        Add \<Rightarrow> set current \<union> set ips
      | Remove \<Rightarrow> set current - set ips
      | Unknown \<Rightarrow> {})"

text \<open>
  What holds of the variables \<^verbatim>\<open>target\<close>, \<^verbatim>\<open>min\<close> and \<^verbatim>\<open>max\<close> whenever the loop condition
  is tested on a non-empty map.
\<close>

definition loop_inv :: "target \<times> int \<times> int \<Rightarrow> bool" where
  "loop_inv s \<longleftrightarrow> (case s of (t, mn, mx) \<Rightarrow>
     counts t \<and> t \<noteq> [] \<and> mn = Min (snd ` set t) \<and> mx = Max (snd ` set t))"

text \<open>
  The round of the Robin Hood loop in which every \<^verbatim>\<open>range\<close> visits the map in the order of
  the list: one of the rounds \<open>robin_hood_step\<close> allows.
\<close>

definition roundInOrder :: "target \<times> int \<times> int \<Rightarrow> target \<times> int \<times> int" where
  "roundInOrder s =
     (case s of (t, mn, mx) \<Rightarrow>
        (let t1 = decrementMax mx t t; t2 = incrementMin mn t1 t1
         in (t2, minValue t2, maxValue t2)))"

text \<open>
  The outer loop of \<^verbatim>\<open>AllocateIps\<close> when every \<^verbatim>\<open>range\<close> visits the instances in the order
  of the list: one of the runs \<open>assign_step\<close> allows.
\<close>

definition assignInOrder :: "instances \<Rightarrow> string list \<Rightarrow> operations \<Rightarrow> operations" where
  "assignInOrder insts spare ops =
     fold (\<lambda>ip ops'. assignIp (minAliasIps insts ops') insts ops' ip) spare ops"


section \<open>Example inputs\<close>

definition node :: "string \<Rightarrow> string list \<Rightarrow> GceInstance" where
  "node name ips =
     \<lparr>Name = name, NetworkInterface = ''nic0'', NetworkFingerprint = ''fp'',
      AliasNetwork = ''vips'', AliasIps = ips\<rparr>"

text \<open>An external service that answers every read with an instance without addresses.\<close>

definition env_accept :: Env where
  "env_accept =
     \<lparr>GetInstance = (\<lambda>name. Inr (node name [])), UpdateAliasIPs = (\<lambda>inst ips. None)\<rparr>"

text \<open>The same, with every write rejected for a fingerprint mismatch.\<close>

definition env_conflict :: Env where
  "env_conflict =
     \<lparr>GetInstance = (\<lambda>name. Inr (node name [])),
      UpdateAliasIPs = (\<lambda>inst ips. Some Conflict)\<rparr>"


definition two_nodes :: instances where
  "two_nodes = [(''a'', node ''a'' [''10.0.0.1'']), (''b'', node ''b'' [])]"

text \<open>A pool of four addresses and two nodes without addresses.\<close>

definition pool4 :: "string list" where
  "pool4 = [''10.0.0.1'', ''10.0.0.2'', ''10.0.0.3'', ''10.0.0.4'']"

definition two_empty :: instances where
  "two_empty = [(''a'', node ''a'' []), (''b'', node ''b'' [])]"



section \<open>Properties of the execution engine\<close>





lemma fold_add_present:
  "set ips \<subseteq> set current
   \<Longrightarrow> fold (\<lambda>ip ns. if ip \<in> set ns then ns else ns @ [ip]) ips current = current"
  by (induction ips) auto


lemma newState_unchanged:
  assumes "desired ty current ips = set current"
  shows "newState ty current ips = current"
proof (cases ty)
  case Add
  with assms have "set ips \<subseteq> set current" by (auto simp: desired_def)
  with Add show ?thesis by (simp add: newState_def fold_add_present)
next
  case Remove
  with assms have "\<forall>ip \<in> set current. ip \<notin> set ips" by (auto simp: desired_def)
  with Remove show ?thesis by (simp add: newState_def)
next
  case Unknown
  with assms show ?thesis by (simp add: newState_def desired_def)
qed

text \<open>
  C7. When the desired final address set equals the address set of the instance as
  \<^verbatim>\<open>Execute\<close> has just read it, \<^verbatim>\<open>Execute\<close> returns 0 and the read is the only external call
  it issues: no \<^verbatim>\<open>UpdateAliasIPs\<close>, the only call that changes the external state.
\<close>

theorem Execute_no_change:
  assumes "GetInstance env (Name (Instance operation)) = Inr inst"
    and "desired (Type operation) (AliasIps inst) (Ips operation) = set (AliasIps inst)"
  shows "Execute env operation = (0, [GetInstanceCall (Name (Instance operation))])
    \<and> (\<forall>i s. UpdateAliasIPsCall i s \<notin> set (snd (Execute env operation)))"
  using assms newState_unchanged [OF assms(2)] by (simp add: Execute_def)

theorem Execute_no_change_witness:
  "Execute env_accept \<lparr>Type = Remove, Instance = node ''a'' [], Ips = [''10.0.0.1'']\<rparr>
     = (0, [GetInstanceCall ''a''])"
  using Execute_no_change [of env_accept
      "\<lparr>Type = Remove, Instance = node ''a'' [], Ips = [''10.0.0.1'']\<rparr>" "node ''a'' []"]
  by (simp add: env_accept_def node_def desired_def)

text \<open>
  C8. When the write \<^verbatim>\<open>Execute\<close> issues fails, whatever the error (a conflict on the
  fingerprint included), \<^verbatim>\<open>Execute\<close> returns 0 and does not call \<^verbatim>\<open>WaitForUpdate\<close>.
\<close>

theorem Execute_write_failed:
  assumes "UpdateAliasIPsCall inst ips \<in> set (snd (Execute env operation))"
    and "UpdateAliasIPs env inst ips = Some err"
  shows "fst (Execute env operation) = 0
    \<and> (\<forall>name s. WaitForUpdateCall name s \<notin> set (snd (Execute env operation)))"
  using assms by (auto simp: Execute_def Let_def split: sum.splits if_splits option.splits)

theorem Execute_write_failed_witness:
  "Execute env_conflict \<lparr>Type = Add, Instance = node ''a'' [], Ips = [''10.0.0.1'']\<rparr>
     = (0, [GetInstanceCall ''a'', UpdateAliasIPsCall (node ''a'' []) [''10.0.0.1'']])"
  using Execute_write_failed [of "node ''a'' []" "[''10.0.0.1'']" env_conflict
      "\<lparr>Type = Add, Instance = node ''a'' [], Ips = [''10.0.0.1'']\<rparr>" Conflict]
  by (simp add: Execute_def newState_def env_conflict_def node_def Let_def)

section \<open>Properties of the shrink pass\<close>

text \<open>
  C9. On an empty map of instances \<^verbatim>\<open>ReduceIps\<close> returns 0 and hands no operation to
  \<^verbatim>\<open>ExecuteParallel\<close>. On the empty map \<^verbatim>\<open>minValue\<close> is -1 and \<^verbatim>\<open>maxValue\<close> is 0, values
  the early return keeps from the loop condition.
\<close>

theorem ReduceIps_no_instances:
  "(ReduceIps envs (Inr []) res \<longleftrightarrow> res = Inr ([], 0))
   \<and> minValue [] = - 1 \<and> maxValue [] = 0 \<and> \<not> maxValue [] - minValue [] > 1"
  by (auto simp: minValue_def maxValue_def elim: ReduceIps.cases intro: ReduceIps.no_instances)

theorem ReduceIps_no_instances_witness:
  "ReduceIps (\<lambda>name. env_accept) (Inr []) (Inr ([], 0))"
  using ReduceIps_no_instances [of "\<lambda>name. env_accept" "Inr ([], 0)"] by simp

subsection \<open>Permutations of an association list\<close>

lemma perm_set: "mset xs = mset ys \<Longrightarrow> set xs = set ys"
  by (rule mset_eq_setD)

lemma perm_keys_distinct:
  assumes "mset xs = mset ys" shows "distinct (map fst xs) \<longleftrightarrow> distinct (map fst ys)"
proof -
  from assms have "mset (map fst xs) = mset (map fst ys)" by (metis mset_map)
  then show ?thesis by (rule mset_eq_imp_distinct_iff)
qed

lemma perm_nil: "mset xs = mset ys \<Longrightarrow> xs = [] \<longleftrightarrow> ys = []"
  by (metis mset_zero_iff)

subsection \<open>minValue and maxValue\<close>

lemma fold_min_least:
  fixes xs :: target
  assumes "0 \<le> acc" and "\<forall>v \<in> snd ` set xs. 0 \<le> v"
  shows "fold (\<lambda>(name, v) mn. if mn < 0 \<or> v < mn then v else mn) xs acc
           \<in> insert acc (snd ` set xs)
       \<and> (\<forall>y \<in> insert acc (snd ` set xs).
            fold (\<lambda>(name, v) mn. if mn < 0 \<or> v < mn then v else mn) xs acc \<le> y)"
  using assms
proof (induction xs arbitrary: acc)
  case Nil
  then show ?case by simp
next
  case (Cons x xs)
  obtain name v where x: "x = (name, v)" by (cases x)
  let ?acc = "if acc < 0 \<or> v < acc then v else acc"
  have "0 \<le> ?acc" using Cons.prems by (simp add: x)
  moreover have "\<forall>v \<in> snd ` set xs. 0 \<le> v" using Cons.prems by simp
  ultimately have IH: "fold (\<lambda>(name, v) mn. if mn < 0 \<or> v < mn then v else mn) xs ?acc
           \<in> insert ?acc (snd ` set xs)
       \<and> (\<forall>y \<in> insert ?acc (snd ` set xs).
            fold (\<lambda>(name, v) mn. if mn < 0 \<or> v < mn then v else mn) xs ?acc \<le> y)"
    by (rule Cons.IH)
  have "?acc = min acc v" using Cons.prems by (auto simp: x)
  with IH show ?case by (auto simp: x)
qed

lemma minValue_Min:
  assumes "xs \<noteq> []" and "\<forall>v \<in> snd ` set xs. 0 \<le> v"
  shows "minValue xs = Min (snd ` set xs)"
proof -
  obtain name v rest where xs: "xs = (name, v) # rest"
    using assms(1) by (cases xs) auto
  have v: "0 \<le> v" and rest: "\<forall>v \<in> snd ` set rest. 0 \<le> v"
    using assms(2) by (auto simp: xs)
  have m: "minValue xs = fold (\<lambda>(name, v) mn. if mn < 0 \<or> v < mn then v else mn) rest v"
    by (simp add: minValue_def xs)
  have "Min (snd ` set xs) = minValue xs"
    using fold_min_least [OF v rest] unfolding m
    by (intro Min_eqI) (auto simp: xs)
  then show ?thesis by simp
qed

lemma fold_max_greatest:
  fixes xs :: target
  shows "fold (\<lambda>(name, v) mx. if mx < v then v else mx) xs acc \<in> insert acc (snd ` set xs)
       \<and> (\<forall>y \<in> insert acc (snd ` set xs).
            y \<le> fold (\<lambda>(name, v) mx. if mx < v then v else mx) xs acc)"
proof (induction xs arbitrary: acc)
  case Nil
  then show ?case by simp
next
  case (Cons x xs)
  obtain name v where x: "x = (name, v)" by (cases x)
  let ?acc = "if acc < v then v else acc"
  have "?acc = max acc v" by auto
  with Cons.IH [of ?acc] show ?case by (auto simp: x)
qed

lemma maxValue_Max:
  assumes "xs \<noteq> []" and "\<forall>v \<in> snd ` set xs. 0 \<le> v"
  shows "maxValue xs = Max (snd ` set xs)"
proof -
  let ?m = "maxValue xs"
  have f: "?m \<in> insert 0 (snd ` set xs) \<and> (\<forall>y \<in> insert 0 (snd ` set xs). y \<le> ?m)"
    unfolding maxValue_def by (rule fold_max_greatest)
  obtain x where x: "x \<in> set xs" using assms(1) by (cases xs) auto
  have "?m \<in> snd ` set xs"
  proof (cases "?m = 0")
    case True
    have "snd x \<le> 0" using f x True by auto
    moreover have "0 \<le> snd x" using assms(2) x by auto
    ultimately have "snd x = ?m" using True by simp
    then show ?thesis using x by (metis imageI)
  next
    case False
    then show ?thesis using f by auto
  qed
  then have "Max (snd ` set xs) = ?m"
    using f by (intro Max_eqI) auto
  then show ?thesis by simp
qed

subsection \<open>Updating an entry of an association list\<close>

lemma update_present_keys:
  "k \<in> fst ` set t \<Longrightarrow> map fst (AList.update k w t) = map fst t"
  by (simp add: update_keys)

lemma update_present_set:
  "distinct (map fst t) \<Longrightarrow> (k, v) \<in> set t
   \<Longrightarrow> set (AList.update k w t) = insert (k, w) (set t - {(k, v)})"
proof (induction t)
  case Nil
  then show ?case by simp
next
  case (Cons p t)
  show ?case
  proof (cases "fst p = k")
    case True
    with Cons.prems have "p = (k, v)" by (cases p) force
    moreover from Cons.prems True have "(k, v) \<notin> set t" by (cases p) force
    ultimately show ?thesis by auto
  next
    case False
    with Cons show ?thesis by (cases p) auto
  qed
qed

lemma update_present_sum:
  fixes f :: "int \<Rightarrow> int"
  shows "distinct (map fst t) \<Longrightarrow> (k, v) \<in> set t
   \<Longrightarrow> sum_list (map f (map snd (AList.update k w t)))
       = sum_list (map f (map snd t)) - f v + f w"
proof (induction t)
  case Nil
  then show ?case by simp
next
  case (Cons p t)
  show ?case
  proof (cases "fst p = k")
    case True
    with Cons.prems have "p = (k, v)" by (cases p) force
    then show ?thesis by simp
  next
    case False
    with Cons show ?thesis by (cases p) auto
  qed
qed

lemma lookupTarget_present:
  "distinct (map fst t) \<Longrightarrow> (k, v) \<in> set t \<Longrightarrow> lookupTarget t k = v"
  by (simp add: lookupTarget_def)

lemma find_present:
  assumes "x \<in> set xs" and "P x"
  obtains y where "find P xs = Some y" and "y \<in> set xs" and "P y"
proof -
  from assms have "find P xs \<noteq> None" by (auto simp: find_None_iff)
  then obtain y where y: "find P xs = Some y" by auto
  then have "y \<in> set xs \<and> P y" by (auto simp: find_Some_iff)
  with y that show thesis by blast
qed

subsection \<open>One round of the Robin Hood loop\<close>

lemma decrementMax_effect:
  assumes c: "counts t" and o1: "mset o1 = mset t" and mx: "(a, mx) \<in> set t"
  obtains k where "(k, mx) \<in> set t" and "decrementMax mx o1 t = AList.update k (mx - 1) t"
proof -
  from o1 have s: "set o1 = set t" by (rule perm_set)
  from mx s have "(a, mx) \<in> set o1" by simp
  then obtain y where y: "find (\<lambda>(name, v). v = mx) o1 = Some y" "y \<in> set o1"
      "(\<lambda>(name, v). v = mx) y"
    using find_present [of "(a, mx)" o1 "\<lambda>(name, v). v = mx"] by auto
  obtain k where k: "y = (k, mx)" using y(3) by (cases y) auto
  have kt: "(k, mx) \<in> set t" using y(2) s k by simp
  then have "lookupTarget t k = mx"
    using c by (simp add: counts_def lookupTarget_present)
  then have "decrementMax mx o1 t = AList.update k (mx - 1) t"
    by (simp add: decrementMax_def y(1) k)
  with kt that show thesis by blast
qed

lemma incrementMin_effect:
  assumes c: "distinct (map fst t)" and o1: "mset o1 = mset t" and mn: "(a, mn) \<in> set t"
  obtains k where "(k, mn) \<in> set t" and "incrementMin mn o1 t = AList.update k (mn + 1) t"
proof -
  from o1 have s: "set o1 = set t" by (rule perm_set)
  from mn s have "(a, mn) \<in> set o1" by simp
  then obtain y where y: "find (\<lambda>(name, v). v = mn) o1 = Some y" "y \<in> set o1"
      "(\<lambda>(name, v). v = mn) y"
    using find_present [of "(a, mn)" o1 "\<lambda>(name, v). v = mn"] by auto
  obtain k where k: "y = (k, mn)" using y(3) by (cases y) auto
  have kt: "(k, mn) \<in> set t" using y(2) s k by simp
  then have "lookupTarget t k = mn"
    using c by (simp add: lookupTarget_present)
  then have "incrementMin mn o1 t = AList.update k (mn + 1) t"
    by (simp add: incrementMin_def y(1) k)
  with kt that show thesis by blast
qed

lemma round_effect:
  assumes i: "loop_inv (t, mn, mx)" and st: "robin_hood_step (t, mn, mx) s'"
  shows "loop_inv s' \<and> total (fst s') = total t \<and> sumsq (fst s') + 2 \<le> sumsq t"
  using st
proof (cases rule: robin_hood_step.cases)
  case (round o1 t1 o2 t2 o3 o4)
  from i have c: "counts t" and ne: "t \<noteq> []" and mn: "mn = Min (snd ` set t)"
    and mx: "mx = Max (snd ` set t)" by (simp_all add: loop_inv_def)
  from c have d: "distinct (map fst t)" and nn: "\<forall>v \<in> snd ` set t. 0 \<le> v"
    by (simp_all add: counts_def)
  have fin: "finite (snd ` set t)" and nes: "snd ` set t \<noteq> {}" using ne by simp_all
  have "mx \<in> snd ` set t" unfolding mx using fin nes by (rule Max_in)
  then obtain a where a: "(a, mx) \<in> set t" by auto
  have "mn \<in> snd ` set t" unfolding mn using fin nes by (rule Min_in)
  then obtain b where b: "(b, mn) \<in> set t" by auto
  have mn0: "0 \<le> mn" using nn \<open>mn \<in> snd ` set t\<close> by blast
  obtain k where k: "(k, mx) \<in> set t"
    and t1': "decrementMax mx o1 t = AList.update k (mx - 1) t"
    by (rule decrementMax_effect [OF c round(3) a])
  have t1: "t1 = AList.update k (mx - 1) t" using round(4) t1' by simp
  have k1: "map fst t1 = map fst t"
    unfolding t1 using k by (intro update_present_keys) force
  then have d1: "distinct (map fst t1)" using d by simp
  have s1: "set t1 = insert (k, mx - 1) (set t - {(k, mx)})"
    unfolding t1 using d k by (rule update_present_set)
  have "(b, mn) \<in> set t1" using b s1 round(2) by auto
  then obtain l where l: "(l, mn) \<in> set t1"
    and t2': "incrementMin mn o2 t1 = AList.update l (mn + 1) t1"
    by (rule incrementMin_effect [OF d1 round(5)])
  have t2: "t2 = AList.update l (mn + 1) t1" using round(6) t2' by simp
  have k2: "map fst t2 = map fst t1"
    unfolding t2 using l by (intro update_present_keys) force
  have s2: "set t2 = insert (l, mn + 1) (set t1 - {(l, mn)})"
    unfolding t2 using d1 l by (rule update_present_set)
  have d2: "distinct (map fst t2)" using d1 k2 by simp
  have ne2: "t2 \<noteq> []" using k2 k1 ne by (metis map_is_Nil_conv)
  have v1: "0 \<le> v" if "(n, v) \<in> set t1" for n v
  proof -
    from that have "v = mx - 1 \<or> (n, v) \<in> set t" unfolding s1 by blast
    then show ?thesis
    proof
      assume "v = mx - 1"
      then show ?thesis using mn0 round(2) by simp
    next
      assume "(n, v) \<in> set t"
      then have "v \<in> snd ` set t" by force
      then show ?thesis using nn by blast
    qed
  qed
  have v2: "0 \<le> v" if "(n, v) \<in> set t2" for n v
  proof -
    from that have "v = mn + 1 \<or> (n, v) \<in> set t1" unfolding s2 by blast
    then show ?thesis using mn0 v1 by auto
  qed
  have nn2: "\<forall>v \<in> snd ` set t2. 0 \<le> v"
  proof
    fix v assume "v \<in> snd ` set t2"
    then obtain n where "(n, v) \<in> set t2" by force
    then show "0 \<le> v" by (rule v2)
  qed
  have c2: "counts t2" using d2 nn2 by (simp add: counts_def)
  have tot1: "total t1 = total t - mx + (mx - 1)"
    unfolding total_def t1 using update_present_sum [OF d k, of "\<lambda>v. v" "mx - 1"] by simp
  have tot2: "total t2 = total t1 - mn + (mn + 1)"
    unfolding total_def t2 using update_present_sum [OF d1 l, of "\<lambda>v. v" "mn + 1"] by simp
  have sq1: "sumsq t1 = sumsq t - mx * mx + (mx - 1) * (mx - 1)"
    unfolding sumsq_def t1 using update_present_sum [OF d k, of "\<lambda>v. v * v" "mx - 1"] by simp
  have sq2: "sumsq t2 = sumsq t1 - mn * mn + (mn + 1) * (mn + 1)"
    unfolding sumsq_def t2 using update_present_sum [OF d1 l, of "\<lambda>v. v * v" "mn + 1"] by simp
  have sq: "sumsq t2 + 2 \<le> sumsq t"
    using sq1 sq2 round(2) by (simp add: algebra_simps)
  have ne3: "o3 \<noteq> []" and ne4: "o4 \<noteq> []"
    using perm_nil [OF round(7)] perm_nil [OF round(8)] ne2 by simp_all
  have "minValue o3 = Min (snd ` set t2)"
    using minValue_Min [OF ne3] nn2 perm_set [OF round(7)] by simp
  moreover have "maxValue o4 = Max (snd ` set t2)"
    using maxValue_Max [OF ne4] nn2 perm_set [OF round(8)] by simp
  ultimately have "loop_inv s'"
    using c2 ne2 by (simp add: loop_inv_def round(1))
  then show ?thesis using tot1 tot2 sq by (simp add: round(1))
qed

subsection \<open>Runs of the Robin Hood loop\<close>

lemma roundInOrder_step:
  "mx - mn > 1 \<Longrightarrow> robin_hood_step (t, mn, mx) (roundInOrder (t, mn, mx))"
  unfolding roundInOrder_def Let_def prod.case
  by (rule robin_hood_step.round [where ?o1.0 = t
        and ?o2.0 = "decrementMax mx t t"
        and ?o3.0 = "incrementMin mn (decrementMax mx t t) (decrementMax mx t t)"
        and ?o4.0 = "incrementMin mn (decrementMax mx t t) (decrementMax mx t t)"]) simp_all

lemma loop_inv_entry:
  assumes "counts t" and "t \<noteq> []" and "mset o1 = mset t" and "mset o2 = mset t"
  shows "loop_inv (t, minValue o1, maxValue o2)"
proof -
  have nn: "\<forall>v \<in> snd ` set t. 0 \<le> v" using assms(1) by (simp add: counts_def)
  have "o1 \<noteq> []" and "o2 \<noteq> []"
    using perm_nil [OF assms(3)] perm_nil [OF assms(4)] assms(2) by simp_all
  then have "minValue o1 = Min (snd ` set t)" and "maxValue o2 = Max (snd ` set t)"
    using minValue_Min [of o1] maxValue_Max [of o2] nn
      perm_set [OF assms(3)] perm_set [OF assms(4)] by simp_all
  then show ?thesis using assms(1,2) by (simp add: loop_inv_def)
qed

lemma run_effect:
  assumes "rtranclp robin_hood_step s s'" and "loop_inv s"
  shows "loop_inv s' \<and> total (fst s') = total (fst s)"
  using assms
proof (induction rule: rtranclp_induct)
  case base
  then show ?case by simp
next
  case (step y z)
  obtain t mn mx where y: "y = (t, mn, mx)" by (cases y)
  from step have "loop_inv (t, mn, mx)" and "robin_hood_step (t, mn, mx) z" by (simp_all add: y)
  then have "loop_inv z \<and> total (fst z) = total t \<and> sumsq (fst z) + 2 \<le> sumsq t"
    by (rule round_effect)
  with step show ?case by (simp add: y)
qed

lemma rounds_effect:
  assumes "(robin_hood_step ^^ n) s s'" and "loop_inv s"
  shows "loop_inv s' \<and> sumsq (fst s') + 2 * int n \<le> sumsq (fst s)"
  using assms
proof (induction n arbitrary: s')
  case 0
  then show ?case by simp
next
  case (Suc n)
  from Suc.prems(1) obtain y where y: "(robin_hood_step ^^ n) s y" and z: "robin_hood_step y s'"
    by auto
  obtain t mn mx where yt: "y = (t, mn, mx)" by (cases y)
  from Suc.IH [OF y Suc.prems(2)] have iy: "loop_inv (t, mn, mx)"
    and sy: "sumsq t + 2 * int n \<le> sumsq (fst s)" by (simp_all add: yt)
  from z have "robin_hood_step (t, mn, mx) s'" by (simp add: yt)
  with iy have "loop_inv s' \<and> total (fst s') = total t \<and> sumsq (fst s') + 2 \<le> sumsq t"
    by (rule round_effect)
  with sy show ?case by simp
qed

lemma sumsq_nonneg: "0 \<le> sumsq t"
  unfolding sumsq_def by (induction t) auto

lemma run_reaches_exit:
  assumes "loop_inv s"
  shows "\<exists>t' mn' mx'. rtranclp robin_hood_step s (t', mn', mx') \<and> \<not> mx' - mn' > 1"
  using assms
proof (induction "nat (sumsq (fst s))" arbitrary: s rule: less_induct)
  case less
  obtain t mn mx where s: "s = (t, mn, mx)" by (cases s)
  show ?case
  proof (cases "mx - mn > 1")
    case False
    then show ?thesis unfolding s by blast
  next
    case True
    let ?s1 = "roundInOrder (t, mn, mx)"
    have st: "robin_hood_step (t, mn, mx) ?s1" using True by (rule roundInOrder_step)
    with less.prems have e: "loop_inv ?s1 \<and> total (fst ?s1) = total t \<and> sumsq (fst ?s1) + 2 \<le> sumsq t"
      unfolding s by (rule round_effect)
    have "nat (sumsq (fst ?s1)) < nat (sumsq (fst s))"
      using e sumsq_nonneg [of "fst ?s1"] by (simp add: s)
    moreover have "loop_inv ?s1" using e by simp
    ultimately obtain t' mn' mx' where
      r: "rtranclp robin_hood_step ?s1 (t', mn', mx')" and x: "\<not> mx' - mn' > 1"
      using less.hyps by blast
    have "rtranclp robin_hood_step s (t', mn', mx')"
      unfolding s using st r by (rule converse_rtranclp_into_rtranclp)
    with x show ?thesis by blast
  qed
qed

lemma no_round_empty: "\<not> robin_hood_step ([], - 1, 0) s'"
  by (auto elim: robin_hood_step.cases)

lemma rounds_empty:
  assumes "(robin_hood_step ^^ n) ([], - 1, 0) s'" shows "n = 0"
proof (cases n)
  case 0
  then show ?thesis .
next
  case (Suc m)
  with assms have "(robin_hood_step ^^ Suc m) ([], - 1, 0) s'" by simp
  then obtain y where "robin_hood_step ([], - 1, 0) y"
    by (blast dest: relpowp_Suc_D2)
  with no_round_empty show ?thesis by blast
qed

lemma chain_rounds:
  assumes "\<forall>i. R (f i) (f (Suc i))" shows "(R ^^ n) (f 0) (f n)"
  using assms by (induction n) auto

subsection \<open>The target map of a shrink pass\<close>

lemma counts_initTarget:
  assumes "distinct (map fst insts)" shows "counts (initTarget insts)"
proof -
  have "map fst (initTarget insts) = map fst insts"
    by (simp add: initTarget_def split_def)
  moreover have "\<forall>v \<in> snd ` set (initTarget insts). 0 \<le> v"
    by (auto simp: initTarget_def)
  ultimately show ?thesis using assms by (simp add: counts_def)
qed


lemma RobinHood_effect:
  assumes "RobinHood t t'" and "counts t" and "t \<noteq> []"
  shows "counts t' \<and> t' \<noteq> [] \<and> spread t' \<le> 1 \<and> total t' = total t"
  using assms(1)
proof (cases rule: RobinHood.cases)
  case (exit o1 o2 mn mx)
  have "loop_inv (t, minValue o1, maxValue o2)"
    using assms(2,3) exit(1,2) by (rule loop_inv_entry)
  with exit(3) have "loop_inv (t', mn, mx) \<and> total (fst (t', mn, mx)) = total (fst (t, minValue o1, maxValue o2))"
    by (rule run_effect)
  with exit(4) show ?thesis by (simp add: loop_inv_def spread_def)
qed




subsection \<open>Termination of the Robin Hood loop\<close>

lemma entry_empty:
  assumes "mset o1 = mset ([] :: target)" and "mset o2 = mset ([] :: target)"
  shows "minValue o1 = - 1" and "maxValue o2 = 0"
  using assms by (simp_all add: minValue_def maxValue_def)

lemma rounds_bounded:
  assumes c: "counts t" and o1: "mset o1 = mset t" and o2: "mset o2 = mset t"
    and r: "(robin_hood_step ^^ n) (t, minValue o1, maxValue o2) s"
  shows "2 * int n \<le> sumsq t"
proof (cases "t = []")
  case True
  with o1 o2 have "minValue o1 = - 1" and "maxValue o2 = 0"
    by (simp_all add: entry_empty)
  with r True have "n = 0" using rounds_empty by simp
  then show ?thesis using sumsq_nonneg [of t] by simp
next
  case False
  with c o1 o2 have "loop_inv (t, minValue o1, maxValue o2)" by (intro loop_inv_entry)
  with r have "sumsq (fst s) + 2 * int n \<le> sumsq (fst (t, minValue o1, maxValue o2))"
    using rounds_effect by blast
  then show ?thesis using sumsq_nonneg [of "fst s"] by simp
qed

lemma RobinHood_exists:
  assumes c: "counts t" shows "\<exists>t'. RobinHood t t'"
proof (cases "t = []")
  case True
  have "rtranclp robin_hood_step (t, minValue t, maxValue t) (t, - 1, 0)"
    by (simp add: True minValue_def maxValue_def)
  then have "RobinHood t t"
    by (rule RobinHood.exit [OF refl refl]) simp
  then show ?thesis ..
next
  case False
  with c have "loop_inv (t, minValue t, maxValue t)" by (intro loop_inv_entry) simp_all
  then obtain t' mn' mx' where
    "rtranclp robin_hood_step (t, minValue t, maxValue t) (t', mn', mx')" and "\<not> mx' - mn' > 1"
    using run_reaches_exit by blast
  then have "RobinHood t t'" by (rule RobinHood.exit [OF refl refl])
  then show ?thesis ..
qed

text \<open>
  C4. On every map of counts the Robin Hood loop of \<^verbatim>\<open>ReduceIps\<close> terminates: whatever the
  orders in which the maps are visited, a run of \<open>n\<close> rounds from the entry of the loop has
  \<open>2 n\<close> at most the sum of the squares of the counts, so no run goes on for ever, and the
  loop reaches its exit.
\<close>

theorem RobinHood_terminates:
  assumes "counts t" and "mset o1 = mset t" and "mset o2 = mset t"
  shows "(\<forall>n s. (robin_hood_step ^^ n) (t, minValue o1, maxValue o2) s \<longrightarrow> 2 * int n \<le> sumsq t)
    \<and> \<not> (\<exists>f. f 0 = (t, minValue o1, maxValue o2) \<and> (\<forall>i. robin_hood_step (f i) (f (Suc i))))
    \<and> (\<exists>t'. RobinHood t t')"
proof (intro conjI)
  show b: "\<forall>n s. (robin_hood_step ^^ n) (t, minValue o1, maxValue o2) s \<longrightarrow> 2 * int n \<le> sumsq t"
    using rounds_bounded [OF assms] by blast
  show "\<not> (\<exists>f. f 0 = (t, minValue o1, maxValue o2) \<and> (\<forall>i. robin_hood_step (f i) (f (Suc i))))"
  proof
    assume "\<exists>f. f 0 = (t, minValue o1, maxValue o2) \<and> (\<forall>i. robin_hood_step (f i) (f (Suc i)))"
    then obtain f where f0: "f 0 = (t, minValue o1, maxValue o2)"
      and ch: "\<forall>i. robin_hood_step (f i) (f (Suc i))" by blast
    let ?n = "Suc (nat (sumsq t))"
    have "(robin_hood_step ^^ ?n) (f 0) (f ?n)" using ch by (rule chain_rounds)
    then have "(robin_hood_step ^^ ?n) (t, minValue o1, maxValue o2) (f ?n)" unfolding f0 .
    then have "2 * int ?n \<le> sumsq t" by (rule rounds_bounded [OF assms])
    then show False using sumsq_nonneg [of t] by simp
  qed
  show "\<exists>t'. RobinHood t t'" using assms(1) by (rule RobinHood_exists)
qed

theorem RobinHood_terminates_witness:
  "\<not> (\<exists>f. f 0 = ([(''a'', 3), (''b'', 3), (''c'', 3), (''d'', 0)], 0, 3)
          \<and> (\<forall>i. robin_hood_step (f i) (f (Suc i))))
   \<and> (\<exists>t'. RobinHood [(''a'', 3), (''b'', 3), (''c'', 3), (''d'', 0)] t')"
  using RobinHood_terminates [of "[(''a'', 3), (''b'', 3), (''c'', 3), (''d'', 0)]"
      "[(''a'', 3), (''b'', 3), (''c'', 3), (''d'', 0)]"
      "[(''a'', 3), (''b'', 3), (''c'', 3), (''d'', 0)]"]
  by (simp add: counts_def minValue_def maxValue_def)

subsection \<open>A shrink pass on balanced counts\<close>

lemma lookupTarget_initTarget:
  assumes "distinct (map fst insts)" and "(name, inst) \<in> set insts"
  shows "lookupTarget (initTarget insts) name = int (length (AliasIps inst))"
proof -
  have "distinct (map fst (initTarget insts))"
    using assms(1) by (simp add: initTarget_def split_def comp_def)
  moreover have "(name, int (length (AliasIps inst))) \<in> set (initTarget insts)"
    using assms(2) by (force simp: initTarget_def)
  ultimately show ?thesis by (rule lookupTarget_present)
qed

lemma generateOperations_none:
  assumes "\<forall>(name, inst) \<in> set order. lookupTarget t name = int (length (AliasIps inst))"
  shows "generateOperations t order = Inr []"
proof -
  have "fold (\<lambda>(name, inst) acc.
             case acc of
               Inl e \<Rightarrow> Inl e
             | Inr ops \<Rightarrow>
                 (let reduction = int (length (AliasIps inst)) - lookupTarget t name in
                  if reduction > 0 then
                    (if nat reduction \<le> length (AliasIps inst) then
                       Inr (AList.update name
                              \<lparr>Type = Remove, Instance = inst,
                               Ips = take (nat reduction) (AliasIps inst)\<rparr> ops)
                     else Inl SliceBounds)
                  else Inr ops))
       order (Inr acc) = Inr acc" for acc
    using assms by (induction order arbitrary: acc) auto
  then show ?thesis by (simp add: generateOperations_def)
qed

lemma RobinHood_balanced_id:
  assumes c: "counts t" and ne: "t \<noteq> []" and b: "spread t \<le> 1"
  shows "RobinHood t t' \<longleftrightarrow> t' = t"
proof
  assume "RobinHood t t'"
  then show "t' = t"
  proof (cases rule: RobinHood.cases)
    case (exit o1 o2 mn mx)
    have i: "loop_inv (t, minValue o1, maxValue o2)" using c ne exit(1,2) by (rule loop_inv_entry)
    then have "maxValue o2 - minValue o1 = spread t" by (simp add: loop_inv_def spread_def)
    with b have "\<not> robin_hood_step (t, minValue o1, maxValue o2) y" for y
      by (auto elim: robin_hood_step.cases)
    with exit(3) have "(t', mn, mx) = (t, minValue o1, maxValue o2)"
      by (auto elim: converse_rtranclpE)
    then show ?thesis by simp
  qed
next
  assume t': "t' = t"
  have i: "loop_inv (t, minValue t, maxValue t)" using c ne by (intro loop_inv_entry) simp_all
  then have "maxValue t - minValue t = spread t" by (simp add: loop_inv_def spread_def)
  with b have "\<not> maxValue t - minValue t > 1" by simp
  moreover have "rtranclp robin_hood_step (t, minValue t, maxValue t) (t, minValue t, maxValue t)"
    by simp
  ultimately have "RobinHood t t" using RobinHood.exit [OF refl refl] by blast
  with t' show "RobinHood t t'" by simp
qed

text \<open>
  C6. On a map of instances whose counts are already at most 1 apart, \<^verbatim>\<open>ReduceIps\<close> hands
  no operation to \<^verbatim>\<open>ExecuteParallel\<close> and returns 0; this is its only outcome.
\<close>

theorem ReduceIps_balanced:
  assumes "distinct (map fst insts)"
    and "insts = [] \<or> Max (snd ` set (initTarget insts)) - Min (snd ` set (initTarget insts)) \<le> 1"
  shows "ReduceIps envs (Inr insts) res \<longleftrightarrow> res = Inr ([], 0)"
proof (cases "insts = []")
  case True
  then show ?thesis
    by (auto elim: ReduceIps.cases intro: ReduceIps.no_instances)
next
  case False
  let ?t = "initTarget insts"
  have c: "counts ?t" using assms(1) by (rule counts_initTarget)
  have ne: "?t \<noteq> []" using False by (simp add: initTarget_def)
  have b: "spread ?t \<le> 1" using assms(2) False by (simp add: spread_def)
  have id: "RobinHood ?t t' \<longleftrightarrow> t' = ?t" for t'
    using c ne b by (rule RobinHood_balanced_id)
  have gen: "generateOperations ?t order = Inr []" if "mset order = mset insts" for order
  proof (rule generateOperations_none)
    from that have "set order = set insts" by (rule perm_set)
    then show "\<forall>(name, inst) \<in> set order. lookupTarget ?t name = int (length (AliasIps inst))"
      using lookupTarget_initTarget [OF assms(1)] by auto
  qed
  show ?thesis
  proof
    assume "ReduceIps envs (Inr insts) res"
    then show "res = Inr ([], 0)"
    proof (cases rule: ReduceIps.cases)
      case no_instances
      then show ?thesis by simp
    next
      case (planned t o1 ops)
      with id gen show ?thesis by (auto simp: ExecuteParallel_def submitted_def)
    next
      case (panicked t o1 e)
      with id gen show ?thesis by auto
    qed
  next
    assume r: "res = Inr ([], 0)"
    have "ReduceIps envs (Inr insts) (Inr ([], ExecuteParallel envs []))"
      using False id gen by (intro ReduceIps.planned [where t = ?t and ?o1.0 = insts]) simp_all
    then show "ReduceIps envs (Inr insts) res"
      by (simp add: r ExecuteParallel_def submitted_def)
  qed
qed

theorem ReduceIps_balanced_witness:
  "ReduceIps (\<lambda>name. env_accept) (Inr two_nodes) (Inr ([], 0))"
  using ReduceIps_balanced [of two_nodes "\<lambda>name. env_accept" "Inr ([], 0)"]
  by (simp add: two_nodes_def node_def initTarget_def)

section \<open>Properties of the grow pass\<close>

subsection \<open>Spare addresses\<close>

lemma initUsed_fold:
  "map_of (fold (\<lambda>ip used. AList.update ip False used) vips u) k
     = (if k \<in> set vips then Some False else map_of u k)
   \<and> (distinct (map fst u)
        \<longrightarrow> distinct (map fst (fold (\<lambda>ip used. AList.update ip False used) vips u)))"
proof (induction vips arbitrary: u)
  case Nil
  then show ?case by simp
next
  case (Cons ip vips)
  show ?case
    using Cons.IH [of "AList.update ip False u"]
    by (auto simp: update_conv' distinct_update)
qed

lemma markUsed_inner_distinct:
  "distinct (map fst u)
   \<Longrightarrow> distinct (map fst
         (fold (\<lambda>ip u'. if map_of u' ip \<noteq> None then AList.update ip True u' else u') ips u))"
  by (induction ips arbitrary: u) (simp_all add: distinct_update)

lemma markUsed_inner_map_of:
  fixes u :: "(string \<times> bool) list"
  shows "map_of (fold (\<lambda>ip u'. if map_of u' ip \<noteq> None then AList.update ip True u' else u') ips u) k
     = (if k \<in> set ips \<and> map_of u k \<noteq> None then Some True else map_of u k)"
proof -
  define g :: "string \<Rightarrow> (string \<times> bool) list \<Rightarrow> (string \<times> bool) list"
    where "g = (\<lambda>ip u'. if map_of u' ip \<noteq> None then AList.update ip True u' else u')"
  have step: "map_of (g ip u) k
      = (if k = ip \<and> map_of u k \<noteq> None then Some True else map_of u k)" for ip u
    by (simp add: g_def update_conv')
  have "map_of (fold g ips u) k
      = (if k \<in> set ips \<and> map_of u k \<noteq> None then Some True else map_of u k)" for u
  proof (induction ips arbitrary: u)
    case Nil
    then show ?case by simp
  next
    case (Cons ip ips)
    have "map_of (fold g (ip # ips) u) k = map_of (fold g ips (g ip u)) k" by simp
    also have "\<dots> = (if k \<in> set ips \<and> map_of (g ip u) k \<noteq> None then Some True
                       else map_of (g ip u) k)"
      by (rule Cons.IH)
    also have "\<dots> = (if k \<in> set (ip # ips) \<and> map_of u k \<noteq> None then Some True
                       else map_of u k)"
      unfolding step by auto
    finally show ?case .
  qed
  then show ?thesis unfolding g_def .
qed

lemma markUsed_distinct:
  "distinct (map fst u) \<Longrightarrow> distinct (map fst (markUsed order u))"
proof -
  define h :: "string list \<Rightarrow> (string \<times> bool) list \<Rightarrow> (string \<times> bool) list"
    where "h = fold (\<lambda>ip u'. if map_of u' ip \<noteq> None then AList.update ip True u' else u')"
  have step: "distinct (map fst u) \<Longrightarrow> distinct (map fst (h ips u))" for ips u
    unfolding h_def by (rule markUsed_inner_distinct)
  have "distinct (map fst u)
      \<Longrightarrow> distinct (map fst (fold (\<lambda>(name, inst) u. h (AliasIps inst) u) order u))" for u
    by (induction order arbitrary: u) (simp_all add: split_def step)
  then show "distinct (map fst u) \<Longrightarrow> distinct (map fst (markUsed order u))"
    unfolding h_def markUsed_def .
qed

lemma markUsed_map_of:
  "map_of (markUsed order u) k
     = (if (\<exists>(name, inst) \<in> set order. k \<in> set (AliasIps inst)) \<and> map_of u k \<noteq> None
        then Some True else map_of u k)"
proof -
  define h :: "string list \<Rightarrow> (string \<times> bool) list \<Rightarrow> (string \<times> bool) list"
    where "h = fold (\<lambda>ip u'. if map_of u' ip \<noteq> None then AList.update ip True u' else u')"
  have step: "map_of (h ips u) k
      = (if k \<in> set ips \<and> map_of u k \<noteq> None then Some True else map_of u k)" for ips u
    unfolding h_def by (rule markUsed_inner_map_of)
  have "map_of (fold (\<lambda>(name, inst) u. h (AliasIps inst) u) order u) k
     = (if (\<exists>(name, inst) \<in> set order. k \<in> set (AliasIps inst)) \<and> map_of u k \<noteq> None
        then Some True else map_of u k)" for u
  proof (induction order arbitrary: u)
    case Nil
    then show ?case by simp
  next
    case (Cons x order)
    obtain name inst where x: "x = (name, inst)" by (cases x)
    have "map_of (fold (\<lambda>(name, inst) u. h (AliasIps inst) u) (x # order) u) k
        = map_of (fold (\<lambda>(name, inst) u. h (AliasIps inst) u) order (h (AliasIps inst) u)) k"
      by (simp add: x)
    also have "\<dots> = (if (\<exists>(name, inst) \<in> set order. k \<in> set (AliasIps inst))
                          \<and> map_of (h (AliasIps inst) u) k \<noteq> None
                       then Some True else map_of (h (AliasIps inst) u) k)"
      by (rule Cons.IH)
    also have "\<dots> = (if (\<exists>(name, inst) \<in> set (x # order). k \<in> set (AliasIps inst))
                          \<and> map_of u k \<noteq> None
                       then Some True else map_of u k)"
      unfolding step by (auto simp: x)
    finally show ?case .
  qed
  then show ?thesis unfolding h_def markUsed_def .
qed

lemma GetSpareIps_spare:
  assumes "GetSpareIps vips insts spare"
  shows "distinct spare
    \<and> set spare = {ip \<in> set vips. \<forall>(name, inst) \<in> set insts. ip \<notin> set (AliasIps inst)}"
  using assms
proof (cases rule: GetSpareIps.cases)
  case (spare o1 o2)
  let ?u = "markUsed o1 (initUsed vips)"
  have d0: "distinct (map fst (initUsed vips))"
    using initUsed_fold [of vips "[]"] by (simp add: initUsed_def)
  have m0: "map_of (initUsed vips) k = (if k \<in> set vips then Some False else None)" for k
    using initUsed_fold [of vips "[]" k] by (simp add: initUsed_def)
  have du: "distinct (map fst ?u)" using d0 by (rule markUsed_distinct)
  have s1: "set o1 = set insts" using spare(2) by (rule mset_eq_setD)
  have mu: "map_of ?u k = Some False
      \<longleftrightarrow> k \<in> set vips \<and> (\<forall>(name, inst) \<in> set insts. k \<notin> set (AliasIps inst))" for k
    using markUsed_map_of [of o1 "initUsed vips" k] m0 [of k] s1 by auto
  have s2: "set o2 = set ?u" using spare(3) by (rule mset_eq_setD)
  have "mset (map fst o2) = mset (map fst ?u)" using spare(3) by (metis mset_map)
  then have d2: "distinct (map fst o2)" using du by (metis mset_eq_imp_distinct_iff)
  have "distinct (collectSpare o2)"
    unfolding collectSpare_def using d2 by (rule distinct_map_filter)
  moreover have "k \<in> set (collectSpare o2) \<longleftrightarrow> map_of ?u k = Some False" for k
  proof -
    have "k \<in> set (collectSpare o2) \<longleftrightarrow> (k, False) \<in> set o2"
      by (force simp: collectSpare_def)
    also have "\<dots> \<longleftrightarrow> (k, False) \<in> set ?u" by (simp add: s2)
    also have "\<dots> \<longleftrightarrow> map_of ?u k = Some False" using du by simp
    finally show ?thesis .
  qed
  ultimately show ?thesis using mu by (auto simp: spare(1))
qed

lemma GetSpareIps_exists: "\<exists>spare. GetSpareIps vips insts spare"
  using GetSpareIps.spare [OF refl refl] by blast

subsection \<open>One round of the grow pass\<close>

lemma load_nonneg: "0 \<le> load ops entry"
  by (cases entry) (simp add: load_def)

lemma fold_load_least:
  assumes "0 \<le> acc"
  shows "fold (\<lambda>entry mn. if mn < 0 \<or> load ops entry < mn then load ops entry else mn)
           xs acc \<in> insert acc (load ops ` set xs)
       \<and> (\<forall>y \<in> insert acc (load ops ` set xs).
            fold (\<lambda>entry mn. if mn < 0 \<or> load ops entry < mn then load ops entry else mn)
              xs acc \<le> y)"
proof -
  define F where "F = (\<lambda>entry mn. if mn < 0 \<or> load ops entry < mn then load ops entry else mn)"
  have step: "F x acc = min acc (load ops x)" if "0 \<le> acc" for x acc
    using that by (auto simp: F_def)
  have "0 \<le> acc \<Longrightarrow> fold F xs acc \<in> insert acc (load ops ` set xs)
       \<and> (\<forall>y \<in> insert acc (load ops ` set xs). fold F xs acc \<le> y)" for acc
  proof (induction xs arbitrary: acc)
    case Nil
    then show ?case by simp
  next
    case (Cons x xs)
    let ?acc = "min acc (load ops x)"
    have "0 \<le> ?acc" using Cons.prems load_nonneg [of ops x] by simp
    then have IH: "fold F xs ?acc \<in> insert ?acc (load ops ` set xs)
       \<and> (\<forall>y \<in> insert ?acc (load ops ` set xs). fold F xs ?acc \<le> y)"
      by (rule Cons.IH)
    have f: "fold F (x # xs) acc = fold F xs ?acc"
      using step [OF Cons.prems] by simp
    have "fold F xs ?acc \<le> ?acc" using IH by blast
    then have le: "fold F xs ?acc \<le> acc \<and> fold F xs ?acc \<le> load ops x" by simp
    have "?acc = acc \<or> ?acc = load ops x" by (simp add: min_def)
    then have "fold F xs ?acc \<in> insert acc (load ops ` set (x # xs))"
      using IH by auto
    moreover have "\<forall>y \<in> insert acc (load ops ` set (x # xs)). fold F xs ?acc \<le> y"
      using IH le by simp
    ultimately show ?case unfolding f by blast
  qed
  then show ?thesis using assms unfolding F_def by blast
qed

lemma minAliasIps_Min:
  assumes "order \<noteq> []"
  shows "minAliasIps order ops = Min (load ops ` set order)"
proof -
  obtain x rest where xs: "order = x # rest" using assms by (cases order) auto
  have m: "minAliasIps order ops
      = fold (\<lambda>entry mn. if mn < 0 \<or> load ops entry < mn then load ops entry else mn)
          rest (load ops x)"
    by (simp add: minAliasIps_def xs Let_def)
  have "Min (load ops ` set order) = minAliasIps order ops"
    using fold_load_least [where acc = "load ops x" and ops = ops and xs = rest, OF load_nonneg]
    unfolding m by (intro Min_eqI) (auto simp: xs)
  then show ?thesis by simp
qed

lemma update_present_staged:
  "distinct (map fst ops) \<Longrightarrow> (k, operation) \<in> set ops
   \<Longrightarrow> mset (staged (AList.update k (operation\<lparr>Ips := Ips operation @ [ip]\<rparr>) ops))
       = add_mset ip (mset (staged ops))"
proof (induction ops)
  case Nil
  then show ?case by simp
next
  case (Cons p ops)
  show ?case
  proof (cases "fst p = k")
    case True
    with Cons.prems have "p = (k, operation)" by (cases p) force
    then show ?thesis by (simp add: staged_def)
  next
    case False
    with Cons.prems have "(k, operation) \<in> set ops" and "distinct (map fst ops)" by auto
    then have "mset (staged (AList.update k (operation\<lparr>Ips := Ips operation @ [ip]\<rparr>) ops))
       = add_mset ip (mset (staged ops))" by (intro Cons.IH)
    with False show ?thesis by (cases p) (simp add: staged_def)
  qed
qed

inductive_cases assign_stepE: "assign_step insts (ops, ip # rest) c'"

lemma assign_effect:
  assumes ne: "insts \<noteq> []"
    and keys: "map fst ops = map fst insts"
    and st: "assign_step insts (ops, ip # rest) c'"
  shows "\<exists>name inst operation. (name, inst) \<in> set insts
    \<and> map_of ops name = Some operation
    \<and> load ops (name, inst) = Min (load ops ` set insts)
    \<and> c' = (AList.update name (operation\<lparr>Ips := Ips operation @ [ip]\<rparr>) ops, rest)"
proof -
  from st obtain o1 o2 where c': "c' = (assignIp (minAliasIps o1 ops) o2 ops ip, rest)"
    and p1: "mset o1 = mset insts" and p2: "mset o2 = mset insts"
    by (rule assign_stepE) blast
  have s1: "set o1 = set insts" using p1 by (rule mset_eq_setD)
  have s2: "set o2 = set insts" using p2 by (rule mset_eq_setD)
  have "o1 \<noteq> []" using p1 ne by (metis mset_zero_iff)
  then have mn: "minAliasIps o1 ops = Min (load ops ` set insts)"
    using minAliasIps_Min [of o1 ops] s1 by simp
  have "Min (load ops ` set insts) \<in> load ops ` set insts"
    using ne by (intro Min_in) simp_all
  then obtain x where "x \<in> set insts" and "Min (load ops ` set insts) = load ops x"
    by (rule imageE)
  then have x: "x \<in> set o2" "load ops x = minAliasIps o1 ops"
    using mn s2 by simp_all
  obtain y where y: "find (\<lambda>entry. load ops entry = minAliasIps o1 ops) o2 = Some y"
    and yp: "y \<in> set o2 \<and> load ops y = minAliasIps o1 ops"
    using find_present [of x o2 "\<lambda>entry. load ops entry = minAliasIps o1 ops"] x by blast
  obtain name inst where ni: "y = (name, inst)" by (cases y)
  have in_insts: "(name, inst) \<in> set insts" using yp s2 ni by simp
  then have "name \<in> fst ` set insts" by force
  then have "name \<in> fst ` set ops" using keys by (metis set_map)
  then have "map_of ops name \<noteq> None" by (simp add: map_of_eq_None_iff)
  then obtain operation where op: "map_of ops name = Some operation" by auto
  have "assignIp (minAliasIps o1 ops) o2 ops ip
      = AList.update name (operation\<lparr>Ips := Ips operation @ [ip]\<rparr>) ops"
    by (simp add: assignIp_def y ni op)
  then have "c' = (AList.update name (operation\<lparr>Ips := Ips operation @ [ip]\<rparr>) ops, rest)"
    using c' by simp
  moreover have "load ops (name, inst) = Min (load ops ` set insts)"
    using yp ni mn by simp
  ultimately show ?thesis using in_insts op by blast
qed

subsection \<open>Runs of the grow pass\<close>

lemma assign_step_shape:
  assumes "assign_step insts (ops, rest) (ops', rest')"
  shows "\<exists>ip. rest = ip # rest'"
  using assms by (rule assign_step.cases) blast

lemma assign_round:
  assumes d: "distinct (map fst insts)" and ne: "insts \<noteq> []"
    and keys: "map fst ops = map fst insts"
    and adds: "\<forall>(name, operation) \<in> set ops. Type operation = Add"
    and st: "assign_step insts (ops, ip # rest) (ops', rest')"
  shows "map fst ops' = map fst insts \<and> rest' = rest
    \<and> mset (staged ops') = add_mset ip (mset (staged ops))
    \<and> (\<forall>(name, operation) \<in> set ops'. Type operation = Add)"
proof -
  from assign_effect [OF ne keys st] obtain name inst operation where
    op: "map_of ops name = Some operation"
    and c: "(ops', rest') = (AList.update name (operation\<lparr>Ips := Ips operation @ [ip]\<rparr>) ops, rest)"
    by blast
  have dk: "distinct (map fst ops)" using d keys by simp
  have mem: "(name, operation) \<in> set ops" using op by (rule map_of_SomeD)
  then have "name \<in> fst ` set ops" by force
  then have k: "map fst ops' = map fst ops" using c by (simp add: update_present_keys)
  have s: "set ops' = insert (name, operation\<lparr>Ips := Ips operation @ [ip]\<rparr>) (set ops - {(name, operation)})"
    using c update_present_set [OF dk mem] by simp
  have "Type operation = Add" using adds mem by blast
  then have a: "\<forall>(name, operation) \<in> set ops'. Type operation = Add"
    using adds unfolding s by auto
  have "mset (staged ops') = add_mset ip (mset (staged ops))"
    using c update_present_staged [OF dk mem] by simp
  with k keys a c show ?thesis by simp
qed

lemma initOperations_facts:
  "map fst (initOperations insts) = map fst insts"
  "staged (initOperations insts) = []"
  "\<forall>(name, operation) \<in> set (initOperations insts). Type operation = Add"
  by (auto simp: initOperations_def staged_def split_def)

lemma assign_run:
  assumes d: "distinct (map fst insts)" and ne: "insts \<noteq> []"
    and run: "rtranclp (assign_step insts) (initOperations insts, spare) (ops, rest)"
  shows "map fst ops = map fst insts \<and> mset (staged ops) + mset rest = mset spare
    \<and> (\<forall>(name, operation) \<in> set ops. Type operation = Add)"
  using run
proof (induction rule: rtranclp_induct2)
  case refl
  then show ?case using initOperations_facts [of insts] by simp
next
  case (step ops1 rest1 ops2 rest2)
  from assign_step_shape [OF step.hyps(2)] obtain ip where r1: "rest1 = ip # rest2" ..
  from step.IH have k: "map fst ops1 = map fst insts"
    and a: "\<forall>(name, operation) \<in> set ops1. Type operation = Add"
    and m: "mset (staged ops1) + mset rest1 = mset spare" by simp_all
  have "assign_step insts (ops1, ip # rest2) (ops2, rest2)" using step.hyps(2) r1 by simp
  from assign_round [OF d ne k a this] m r1 show ?case by simp
qed

lemma assignInOrder_run:
  "rtranclp (assign_step insts) (ops, spare) (assignInOrder insts spare ops, [])"
proof (induction spare arbitrary: ops)
  case Nil
  then show ?case by (simp add: assignInOrder_def)
next
  case (Cons ip spare)
  let ?ops = "assignIp (minAliasIps insts ops) insts ops ip"
  have "assign_step insts (ops, ip # spare) (?ops, spare)"
    by (rule assign_step.assign [OF refl refl])
  moreover have "rtranclp (assign_step insts) (?ops, spare) (assignInOrder insts spare ?ops, [])"
    by (rule Cons.IH)
  moreover have "assignInOrder insts (ip # spare) ops = assignInOrder insts spare ?ops"
    by (simp add: assignInOrder_def)
  ultimately show ?case by (simp add: converse_rtranclp_into_rtranclp)
qed

lemma not_staged:
  "ip \<notin> set (staged ops) \<Longrightarrow> filter (\<lambda>(name, operation). ip \<in> set (Ips operation)) ops = []"
  by (induction ops) (auto simp: staged_def)

lemma staged_once:
  "distinct (staged ops)
   \<Longrightarrow> length (filter (\<lambda>(name, operation). ip \<in> set (Ips operation)) ops) \<le> 1"
proof (induction ops)
  case Nil
  then show ?case by simp
next
  case (Cons p ops)
  obtain name operation where p: "p = (name, operation)" by (cases p)
  from Cons.prems have d: "distinct (staged ops)"
    and disj: "set (Ips operation) \<inter> set (staged ops) = {}"
    by (simp_all add: staged_def p)
  show ?case
  proof (cases "ip \<in> set (Ips operation)")
    case True
    with disj have "ip \<notin> set (staged ops)" by blast
    then show ?thesis using True by (simp add: not_staged p)
  next
    case False
    then show ?thesis using Cons.IH [OF d] by (simp add: p)
  qed
qed

inductive_cases AllocateIps_fetchedE: "AllocateIps envs vips (Inr insts) (ops, r)"

text \<open>
  C2. In one grow pass no address is staged twice: in the operations \<^verbatim>\<open>AllocateIps\<close> hands
  to \<^verbatim>\<open>ExecuteParallel\<close>, whose keys are distinct, an address is in the list of at most one
  operation.
\<close>

theorem AllocateIps_no_address_twice:
  assumes "distinct (map fst insts)" and "AllocateIps envs vips (Inr insts) (ops, r)"
  shows "distinct (map fst ops)
    \<and> (\<forall>ip. length (filter (\<lambda>(name, operation). ip \<in> set (Ips operation)) ops) \<le> 1)"
  using assms(2)
proof (rule AllocateIps_fetchedE)
  fix spare
  assume "ops = []"
  then show ?thesis by simp
next
  fix spare
  assume sp: "GetSpareIps vips insts spare" and ne: "insts \<noteq> []"
    and run: "rtranclp (assign_step insts) (initOperations insts, spare) (ops, [])"
  from assms(1) ne run have k: "map fst ops = map fst insts"
    and m: "mset (staged ops) + mset [] = mset spare"
    using assign_run by blast+
  from sp have "distinct spare" using GetSpareIps_spare by blast
  moreover from m have "mset (staged ops) = mset spare" by simp
  ultimately have "distinct (staged ops)" by (metis mset_eq_imp_distinct_iff)
  then have "\<forall>ip. length (filter (\<lambda>(name, operation). ip \<in> set (Ips operation)) ops) \<le> 1"
    using staged_once by blast
  with k assms(1) show ?thesis by simp
qed

lemma two_empty_spare: "GetSpareIps pool4 two_empty pool4"
proof -
  have u: "markUsed two_empty (initUsed pool4)
      = [(''10.0.0.1'', False), (''10.0.0.2'', False), (''10.0.0.3'', False),
         (''10.0.0.4'', False)]"
    by (simp add: markUsed_def initUsed_def pool4_def two_empty_def node_def)
  have "GetSpareIps pool4 two_empty (collectSpare (markUsed two_empty (initUsed pool4)))"
    by (rule GetSpareIps.spare [OF refl refl])
  then show ?thesis unfolding u by (simp add: collectSpare_def pool4_def)
qed

lemma two_empty_plan:
  "assignInOrder two_empty pool4 (initOperations two_empty)
     = [(''a'', \<lparr>Type = Add, Instance = node ''a'' [], Ips = [''10.0.0.1'', ''10.0.0.3'']\<rparr>),
        (''b'', \<lparr>Type = Add, Instance = node ''b'' [], Ips = [''10.0.0.2'', ''10.0.0.4'']\<rparr>)]"
  by (simp add: assignInOrder_def assignIp_def minAliasIps_def load_def opIps_def
      initOperations_def two_empty_def pool4_def node_def Let_def)

lemma two_empty_run:
  "AllocateIps envs pool4 (Inr two_empty)
     (assignInOrder two_empty pool4 (initOperations two_empty),
      ExecuteParallel envs (assignInOrder two_empty pool4 (initOperations two_empty)))"
  using two_empty_spare
proof (rule AllocateIps.planned)
  show "\<not> (length pool4 = 0 \<or> length two_empty = 0)"
    by (simp add: pool4_def two_empty_def)
  show "rtranclp (assign_step two_empty) (initOperations two_empty, pool4)
      (assignInOrder two_empty pool4 (initOperations two_empty), [])"
    by (rule assignInOrder_run)
qed

theorem AllocateIps_no_address_twice_witness:
  "length (filter (\<lambda>(name, operation). ''10.0.0.3'' \<in> set (Ips operation))
     [(''a'', \<lparr>Type = Add, Instance = node ''a'' [], Ips = [''10.0.0.1'', ''10.0.0.3'']\<rparr>),
      (''b'', \<lparr>Type = Add, Instance = node ''b'' [], Ips = [''10.0.0.2'', ''10.0.0.4'']\<rparr>)])
     \<le> 1"
  using AllocateIps_no_address_twice [OF _ two_empty_run [of "\<lambda>name. env_accept"]]
  unfolding two_empty_plan by (simp add: two_empty_def)






section \<open>What the passes return\<close>










section \<open>The slice expression of the shrink pass is in range\<close>

lemma lookupTarget_nonneg:
  assumes "counts t" shows "0 \<le> lookupTarget t name"
proof (cases "map_of t name")
  case None
  then show ?thesis by (simp add: lookupTarget_def)
next
  case (Some v)
  then have "(name, v) \<in> set t" by (rule map_of_SomeD)
  then have "v \<in> snd ` set t" by force
  with assms have "0 \<le> v" unfolding counts_def by blast
  with Some show ?thesis by (simp add: lookupTarget_def)
qed

lemma generateOperations_defined:
  assumes "\<And>name. 0 \<le> lookupTarget t name"
  shows "\<exists>ops. generateOperations t order = Inr ops"
proof -
  define F where "F = (\<lambda>(name, inst) acc.
             case acc of
               Inl e \<Rightarrow> Inl e
             | Inr ops \<Rightarrow>
                 (let reduction = int (length (AliasIps inst)) - lookupTarget t name in
                  if reduction > 0 then
                    (if nat reduction \<le> length (AliasIps inst) then
                       Inr (AList.update name
                              \<lparr>Type = Remove, Instance = inst,
                               Ips = take (nat reduction) (AliasIps inst)\<rparr> ops)
                     else (Inl SliceBounds :: error + operations))
                  else Inr ops))"
  have step: "\<exists>ops'. F x (Inr ops) = Inr ops'" for x ops
  proof -
    obtain name inst where x: "x = (name, inst)" by (cases x)
    have "nat (int (length (AliasIps inst)) - lookupTarget t name) \<le> length (AliasIps inst)"
      using assms [of name] by simp
    then show ?thesis by (simp add: F_def x Let_def)
  qed
  have "\<exists>ops'. fold F order (Inr ops) = Inr ops'" for ops
  proof (induction order arbitrary: ops)
    case Nil
    then show ?case by simp
  next
    case (Cons x order)
    from step [of x ops] obtain ops1 where "F x (Inr ops) = Inr ops1" ..
    with Cons.IH [of ops1] show ?case by simp
  qed
  then show ?thesis unfolding generateOperations_def F_def .
qed

inductive_cases ReduceIps_panickedE: "ReduceIps envs (Inr insts) (Inl e)"

lemma ReduceIps_no_panic:
  assumes "distinct (map fst insts)"
  shows "\<not> ReduceIps envs (Inr insts) (Inl e)"
proof
  assume "ReduceIps envs (Inr insts) (Inl e)"
  then show False
  proof (rule ReduceIps_panickedE)
    fix t o1
    assume ne: "insts \<noteq> []" and rh: "RobinHood (initTarget insts) t"
      and g: "generateOperations t o1 = Inl e"
    have "initTarget insts \<noteq> []" using ne by (simp add: initTarget_def)
    with rh counts_initTarget [OF assms] have "counts t"
      using RobinHood_effect by blast
    then have "\<exists>ops. generateOperations t o1 = Inr ops"
      by (intro generateOperations_defined lookupTarget_nonneg)
    with g show False by simp
  qed
qed

end
